theory Spec2Isabelle
  imports Complex_Main
begin

section \<open>Strings, regular expressions and numbers of the price-sync scripts\<close>

text \<open>
  A JavaScript string is a sequence of UTF-16 code units. The scripts test single code
  units (quotes, digits, white space, line terminators) and write the euro sign, so a
  string is modelled as the list of its code units. A JavaScript number is modelled as an
  exact real number; the rounding of IEEE doubles is not modelled, and \<open>NaN\<close> and the
  infinities are the value \<open>None\<close> where the code can produce them.
\<close>

type_synonym jsstring = "nat list"

definition js :: "string \<Rightarrow> jsstring" where
  "js s = map of_char s"

definition euro :: nat where
  "euro = 8364"

definition dollar :: nat where
  "dollar = 36"

definition newline :: nat where
  "newline = 10"

text \<open>The class \<open>\s\<close> of an ECMAScript regular expression (white space and line terminators).\<close>

definition isSpace :: "nat \<Rightarrow> bool" where
  "isSpace c = (c = 9 \<or> c = 10 \<or> c = 11 \<or> c = 12 \<or> c = 13 \<or> c = 32 \<or> c = 160
     \<or> c = 5760 \<or> (8192 \<le> c \<and> c \<le> 8202) \<or> c = 8232 \<or> c = 8233 \<or> c = 8239
     \<or> c = 8287 \<or> c = 12288 \<or> c = 65279)"

text \<open>The class \<open>['"`]\<close>.\<close>

definition isQuote :: "nat \<Rightarrow> bool" where
  "isQuote c = (c = 39 \<or> c = 34 \<or> c = 96)"

text \<open>What \<open>.\<close> does not match: the four line terminators.\<close>

definition isLineTerminator :: "nat \<Rightarrow> bool" where
  "isLineTerminator c = (c = 10 \<or> c = 13 \<or> c = 8232 \<or> c = 8233)"

definition isDigit :: "nat \<Rightarrow> bool" where
  "isDigit c = (48 \<le> c \<and> c \<le> 57)"

text \<open>The class \<open>[0-9.]\<close>.\<close>

definition isDigitOrDot :: "nat \<Rightarrow> bool" where
  "isDigitOrDot c = (isDigit c \<or> c = 46)"

fun stripPrefix :: "jsstring \<Rightarrow> jsstring \<Rightarrow> jsstring option" where
  "stripPrefix [] s = Some s"
| "stripPrefix (p # ps) [] = None"
| "stripPrefix (p # ps) (c # cs) = (if p = c then stripPrefix ps cs else None)"

text \<open>\<open>String.prototype.includes\<close>: the argument occurs as a contiguous substring.\<close>

fun includes_js :: "jsstring \<Rightarrow> jsstring \<Rightarrow> bool" where
  "includes_js [] s = (s = [])"
| "includes_js (c # cs) s = (stripPrefix s (c # cs) \<noteq> None \<or> includes_js cs s)"

text \<open>
  \<open>/asin\s*:/\<close> matched at the start of the string: the word, then white space, then a
  colon. The colon is no white space, so the greedy \<open>\s*\<close> never has to give back.
\<close>

definition asin_re_here :: "jsstring \<Rightarrow> bool" where
  "asin_re_here s =
     (case stripPrefix [97, 115, 105, 110] s of
        None \<Rightarrow> False
      | Some r \<Rightarrow> (case dropWhile isSpace r of [] \<Rightarrow> False | c # _ \<Rightarrow> c = 58))"

text \<open>\<open>line.match(/asin\s*:/)\<close> is not anchored: it matches at any position.\<close>

fun asin_re :: "jsstring \<Rightarrow> bool" where
  "asin_re [] = False"
| "asin_re (c # cs) = (asin_re_here (c # cs) \<or> asin_re cs)"

text \<open>
  \<open>/^(\s*price\s*:\s*['"`])([^'"`]+)(['"`].*)$/\<close>, returning the three groups.
  Every greedy part is followed by a character outside its class, so the match is
  unique: white space, \<open>price\<close>, white space, a colon, white space, an opening quote
  (group 1); the longest run without a quote, not empty (group 2); a quote and the rest
  of the string, which holds no line terminator (group 3).
\<close>

definition price_re :: "jsstring \<Rightarrow> (jsstring \<times> jsstring \<times> jsstring) option" where
  "price_re line =
     (let ws0 = takeWhile isSpace line in
      case stripPrefix [112, 114, 105, 99, 101] (dropWhile isSpace line) of
        None \<Rightarrow> None
      | Some s1 \<Rightarrow>
          (case dropWhile isSpace s1 of
             [] \<Rightarrow> None
           | c # s2 \<Rightarrow>
               if c \<noteq> 58 then None
               else (case dropWhile isSpace s2 of
                  [] \<Rightarrow> None
                | q # s3 \<Rightarrow>
                    if \<not> isQuote q then None
                    else (let m2 = takeWhile (\<lambda>x. \<not> isQuote x) s3;
                              m3 = dropWhile (\<lambda>x. \<not> isQuote x) s3
                          in if m2 = [] \<or> m3 = [] \<or> list_ex isLineTerminator (tl m3)
                             then None
                             else Some (ws0 @ [112, 114, 105, 99, 101] @ takeWhile isSpace s1
                                          @ [58] @ takeWhile isSpace s2 @ [q], m2, m3)))))"

text \<open>\<open>currentStr.replace(/[^0-9.]/g, '')\<close>.\<close>

definition stripNonNumeric :: "jsstring \<Rightarrow> jsstring" where
  "stripNonNumeric s = filter isDigitOrDot s"

fun digitsValue :: "nat \<Rightarrow> jsstring \<Rightarrow> nat" where
  "digitsValue acc [] = acc"
| "digitsValue acc (c # cs) = digitsValue (10 * acc + (c - 48)) cs"

text \<open>
  \<open>parseFloat\<close> on a string of digits and dots (the Patcher strips every other
  character first): the longest prefix that is a decimal literal, which is digits with
  an optional dot and fraction, or a dot and a fraction. \<open>None\<close> is \<open>NaN\<close>.
\<close>

definition parseFloat :: "jsstring \<Rightarrow> real option" where
  "parseFloat s =
     (let ip = takeWhile isDigit s;
          fp = (case dropWhile isDigit s of
                  [] \<Rightarrow> []
                | c # t \<Rightarrow> if c = 46 then takeWhile isDigit t else [])
      in if ip = [] \<and> fp = [] then None
         else Some (of_nat (digitsValue 0 (ip @ fp)) / 10 ^ length fp))"

text \<open>\<open>Math.round\<close>: the nearest integer, a half rounded up.\<close>

definition math_round :: "real \<Rightarrow> int" where
  "math_round x = \<lfloor>x + 1 / 2\<rfloor>"

text \<open>
  The decimal digits of a natural number, and the string of an integer as a template
  literal prints it (below \<open>10^21\<close> in absolute value, where JavaScript prints plain
  digits).
\<close>

function decimal :: "nat \<Rightarrow> jsstring" where
  "decimal n = (if n < 10 then [48 + n] else decimal (n div 10) @ [48 + n mod 10])"
  by pat_completeness auto
termination
  by (relation "measure (\<lambda>n. n)") auto

declare decimal.simps [simp del]

definition numberToString :: "int \<Rightarrow> jsstring" where
  "numberToString n = (if n < 0 then 45 # decimal (nat (- n)) else decimal (nat n))"

section \<open>The Template Patcher\<close>

text \<open>
  The three variants of the script (Keepa, Creators API, PA-API) carry the same
  \<open>updateFilePrice\<close>; they differ in the wording of the messages only.
\<close>

definition MIN_CHANGE_PCT :: real where
  "MIN_CHANGE_PCT = 3"

text \<open>
  A division of JavaScript numbers: by zero it gives an infinity or \<open>NaN\<close>, here
  \<open>None\<close>.
\<close>

definition js_div :: "real \<Rightarrow> real \<Rightarrow> real option" where
  "js_div a b = (if b = 0 then None else Some (a / b))"

text \<open>\<open>(Math.abs(newPrice - currentNum) / currentNum) * 100\<close>.\<close>

definition changePct :: "real \<Rightarrow> real \<Rightarrow> real option" where
  "changePct newPrice currentNum =
     (case js_div \<bar>newPrice - currentNum\<bar> currentNum of
        None \<Rightarrow> None
      | Some q \<Rightarrow> Some (q * 100))"

text \<open>\<open>currency === '$' ? `$${rounded}` : `${rounded}\<euro>`\<close>.\<close>

definition formatPrice :: "real \<Rightarrow> jsstring \<Rightarrow> jsstring" where
  "formatPrice newPrice currency =
     (let rounded = math_round newPrice
      in if currency = [dollar] then dollar # numberToString rounded
         else numberToString rounded @ [euro])"

text \<open>
  What the body of the lookahead loop does with a matched price line: it gives the
  occurrence up when the recorded price is \<open>NaN\<close> or zero, leaves the line when the
  change is below the threshold, and otherwise rewrites it. A comparison with \<open>NaN\<close>
  or an infinity on the left is false in JavaScript, so a change that is no number
  would fall through to the rewrite.
\<close>

datatype decision = Abandon | Unchanged | Rewrite jsstring

definition decide :: "jsstring \<Rightarrow> real \<Rightarrow> jsstring \<Rightarrow> decision" where
  "decide currentStr newPrice currency =
     (case parseFloat (stripNonNumeric currentStr) of
        None \<Rightarrow> Abandon
      | Some currentNum \<Rightarrow>
          if currentNum = 0 then Abandon
          else (case changePct newPrice currentNum of
                  None \<Rightarrow> Rewrite (formatPrice newPrice currency)
                | Some pct \<Rightarrow>
                    if pct < MIN_CHANGE_PCT then Unchanged
                    else Rewrite (formatPrice newPrice currency)))"

text \<open>
  The inner loop \<open>for (let j = i + 1; j < Math.min(i + 10, lines.length); j++)\<close>, from
  the index \<open>j\<close> on. The array is updated in place; the flag \<open>changed\<close> is threaded.
  The identifier and the path are used in the messages only and are no arguments here.
\<close>

function lookahead ::
  "jsstring list \<Rightarrow> nat \<Rightarrow> nat \<Rightarrow> real \<Rightarrow> jsstring \<Rightarrow> bool \<Rightarrow> jsstring list \<times> bool" where
  "lookahead lines i j newPrice currency changed =
     (if j < min (i + 10) (length lines) then
        (case price_re (lines ! j) of
           None \<Rightarrow>
             if asin_re (lines ! j) then (lines, changed)
             else lookahead lines i (j + 1) newPrice currency changed
         | Some (m1, currentStr, m3) \<Rightarrow>
             (case decide currentStr newPrice currency of
                Abandon \<Rightarrow> (lines, changed)
              | Unchanged \<Rightarrow> (lines, changed)
              | Rewrite formatted \<Rightarrow> (lines[j := m1 @ formatted @ m3], True)))
      else (lines, changed))"
  by pat_completeness auto
termination
  by (relation "measure (\<lambda>(lines, i, j, _). min (i + 10) (length lines) - j)") auto

declare lookahead.simps [simp del]

lemma length_lookahead:
  "length (fst (lookahead lines i j newPrice currency changed)) = length lines"
proof (induction lines i j newPrice currency changed rule: lookahead.induct)
  case (1 lines i j newPrice currency changed)
  show ?case
    using "1.IH"
    by (subst lookahead.simps) (auto split: option.splits decision.splits)
qed

lemma length_lookahead_eq:
  "(lines', changed') = lookahead lines i j newPrice currency changed \<Longrightarrow>
   length lines' = length lines"
  using length_lookahead [of lines i j newPrice currency changed] by (cases "lookahead lines i j newPrice currency changed") simp

text \<open>The outer loop \<open>for (let i = 0; i < lines.length; i++)\<close>, from the index \<open>i\<close> on.\<close>

function scan ::
  "jsstring list \<Rightarrow> nat \<Rightarrow> jsstring \<Rightarrow> real \<Rightarrow> jsstring \<Rightarrow> bool \<Rightarrow> jsstring list \<times> bool" where
  "scan lines i asin newPrice currency changed =
     (if i < length lines then
        (if \<not> asin_re (lines ! i) \<or> \<not> includes_js (lines ! i) asin
         then scan lines (i + 1) asin newPrice currency changed
         else (case lookahead lines i (i + 1) newPrice currency changed of
                 (lines', changed') \<Rightarrow> scan lines' (i + 1) asin newPrice currency changed'))
      else (lines, changed))"
  by pat_completeness auto
termination
  by (relation "measure (\<lambda>(lines, i, _). length lines - i)")
    (auto dest: length_lookahead_eq)

declare scan.simps [simp del]

text \<open>\<open>content.split('\n')\<close> and \<open>lines.join('\n')\<close>.\<close>

fun split_nl :: "jsstring \<Rightarrow> jsstring list" where
  "split_nl [] = [[]]"
| "split_nl (c # cs) =
     (if c = newline then [] # split_nl cs
      else (case split_nl cs of [] \<Rightarrow> [[c]] | l # ls \<Rightarrow> (c # l) # ls))"

fun join_nl :: "jsstring list \<Rightarrow> jsstring" where
  "join_nl [] = []"
| "join_nl [l] = l"
| "join_nl (l # l' # ls) = l @ newline # join_nl (l' # ls)"

text \<open>
  The file system: the text of every file that exists (as \<open>readFileSync\<close> with
  \<open>'utf-8'\<close> decodes it), and the log of the calls of \<open>writeFileSync\<close>. A path is the
  string the registry gives; joining it to the root directory is left out.
\<close>

record disk =
  contents :: "jsstring \<rightharpoonup> jsstring"
  writes :: "(jsstring \<times> jsstring) list"

definition writeFileSync :: "disk \<Rightarrow> jsstring \<Rightarrow> jsstring \<Rightarrow> disk" where
  "writeFileSync d path data =
     d\<lparr>contents := (contents d)(path \<mapsto> data), writes := writes d @ [(path, data)]\<rparr>"

text \<open>\<open>updateFilePrice\<close>; the messages on the console are left out.\<close>

definition updateFilePrice ::
  "disk \<Rightarrow> jsstring \<Rightarrow> jsstring \<Rightarrow> real \<Rightarrow> jsstring \<Rightarrow> disk \<times> bool" where
  "updateFilePrice d filePath asin newPrice currency =
     (case contents d filePath of
        None \<Rightarrow> (d, False)
      | Some content \<Rightarrow>
          (case scan (split_nl content) 0 asin newPrice currency False of
             (lines, changed) \<Rightarrow>
               (if changed then writeFileSync d filePath (join_nl lines) else d, changed)))"

section \<open>The Keepa Fetcher\<close>

text \<open>
  The part of the Keepa response the script reads. A field that is absent, \<open>null\<close> or
  \<open>undefined\<close> is \<open>None\<close>; the price slots hold numbers.
\<close>

record keepa_stats =
  st_current :: "real option list option"

record keepa_product =
  pr_stats :: "keepa_stats option"

record keepa_data =
  da_products :: "keepa_product list option"

record response =
  res_ok :: bool
  res_status :: nat
  res_json :: keepa_data

text \<open>\<open>stats.current?.[n]\<close>: \<open>undefined\<close> when the array is missing or too short.\<close>

definition current_at :: "keepa_stats \<Rightarrow> nat \<Rightarrow> real option" where
  "current_at stats n =
     (case st_current stats of
        None \<Rightarrow> None
      | Some xs \<Rightarrow> if n < length xs then xs ! n else None)"

text \<open>The test \<open>v != null && v > 0\<close> of the search.\<close>

definition present_positive :: "real option \<Rightarrow> bool" where
  "present_positive v = (case v of None \<Rightarrow> False | Some x \<Rightarrow> 0 < x)"

definition keepa_url :: "jsstring \<Rightarrow> jsstring \<Rightarrow> nat \<Rightarrow> jsstring" where
  "keepa_url KEEPA_KEY asin domain =
     js ''https://api.keepa.com/product'' @ js ''?key='' @ KEEPA_KEY @
     js ''&domain='' @ decimal domain @ js ''&asin='' @ asin @ js ''&stats=1'' @ js ''&offers=20''"

text \<open>
  \<open>fetchKeepaPrice\<close>. The network is a function from the requested address to the
  response; a thrown \<open>Error\<close> is \<open>Inl\<close> of its message, the result \<open>null\<close> is
  \<open>Inr None\<close>.
\<close>

definition fetchKeepaPrice ::
  "(jsstring \<Rightarrow> response) \<Rightarrow> jsstring \<Rightarrow> jsstring \<Rightarrow> nat \<Rightarrow> jsstring + real option" where
  "fetchKeepaPrice net KEEPA_KEY asin domain =
     (let res = net (keepa_url KEEPA_KEY asin domain) in
      if \<not> res_ok res
      then Inl (js ''Keepa HTTP '' @ decimal (res_status res) @ js '' for ASIN '' @ asin)
      else (case da_products (res_json res) of
              None \<Rightarrow> Inr None
            | Some [] \<Rightarrow> Inr None
            | Some (product # _) \<Rightarrow>
                (case pr_stats product of
                   None \<Rightarrow> Inr None
                 | Some stats \<Rightarrow>
                     (let candidates = [current_at stats 10, current_at stats 0, current_at stats 1]
                      in case find present_positive candidates of
                           None \<Rightarrow> Inr None
                         | Some None \<Rightarrow> Inr None
                         | Some (Some raw) \<Rightarrow>
                             if raw = 0 then Inr None else Inr (Some (raw / 100))))))"

text \<open>The precedence in the words of the specification.\<close>

definition keepa_select :: "real option \<Rightarrow> real option \<Rightarrow> real option \<Rightarrow> real option" where
  "keepa_select buyBox direct marketplace =
     (if present_positive buyBox then map_option (\<lambda>raw. raw / 100) buyBox
      else if present_positive direct then map_option (\<lambda>raw. raw / 100) direct
      else if present_positive marketplace then map_option (\<lambda>raw. raw / 100) marketplace
      else None)"

section \<open>The Sync Orchestrator (Keepa variant)\<close>

record product =
  p_asin :: jsstring
  p_domain :: nat
  p_currency :: jsstring
  p_files :: "jsstring list"

text \<open>The key \<open>`${p.asin}-${p.domain}`\<close>.\<close>

definition product_key :: "product \<Rightarrow> jsstring" where
  "product_key p = p_asin p @ [45] @ decimal (p_domain p)"

text \<open>\<open>for (const f of p.files) if (!files.includes(f)) files.push(f)\<close>.\<close>

fun merge_files :: "jsstring list \<Rightarrow> jsstring list \<Rightarrow> jsstring list" where
  "merge_files files [] = files"
| "merge_files files (f # fs) = merge_files (if f \<in> set files then files else files @ [f]) fs"

text \<open>
  One round of the loop that fills \<open>byKey\<close>. The \<open>Map\<close> keeps its keys in the order
  of their first insertion, so it is a list of pairs.
\<close>

definition byKey_add :: "(jsstring \<times> product) list \<Rightarrow> product \<Rightarrow> (jsstring \<times> product) list" where
  "byKey_add m p =
     (if product_key p \<notin> fst ` set m then m @ [(product_key p, p)]
      else map (\<lambda>(k, e). if k = product_key p
                          then (k, e\<lparr>p_files := merge_files (p_files e) (p_files p)\<rparr>)
                          else (k, e)) m)"

definition byKey :: "product list \<Rightarrow> (jsstring \<times> product) list" where
  "byKey PRODUCTS = foldl byKey_add [] PRODUCTS"

text \<open>\<open>[...new Set(files)]\<close>: the elements in the order of their first occurrence.\<close>

definition uniqueFiles :: "jsstring list \<Rightarrow> jsstring list" where
  "uniqueFiles files = merge_files [] files"

text \<open>
  The state of a run: the disk, the calls of \<open>fetchKeepaPrice\<close> made so far, and the
  counters and the error list of \<open>main\<close>.
\<close>

record run =
  r_disk :: disk
  r_fetched :: "(jsstring \<times> nat) list"
  filesUpdated :: nat
  asinsChecked :: nat
  errors :: "jsstring list"

definition domainLabel :: "nat \<Rightarrow> jsstring" where
  "domainLabel domain = (if domain = 4 then js ''amazon.fr'' else js ''amazon.com'')"

definition patch_file :: "jsstring \<Rightarrow> real \<Rightarrow> jsstring \<Rightarrow> run \<Rightarrow> jsstring \<Rightarrow> run" where
  "patch_file asin price currency st file =
     (case updateFilePrice (r_disk st) file asin price currency of
        (d, changed) \<Rightarrow>
          st\<lparr>r_disk := d, filesUpdated := (if changed then filesUpdated st + 1 else filesUpdated st)\<rparr>)"

text \<open>One round of \<open>for (const [key, { asin, domain, currency, files }] of byKey)\<close>.\<close>

definition main_step ::
  "(jsstring \<Rightarrow> response) \<Rightarrow> jsstring \<Rightarrow> run \<Rightarrow> jsstring \<times> product \<Rightarrow> run" where
  "main_step net KEEPA_KEY st entry =
     (let e = snd entry;
          st1 = st\<lparr>asinsChecked := asinsChecked st + 1,
                   r_fetched := r_fetched st @ [(p_asin e, p_domain e)]\<rparr>
      in case fetchKeepaPrice net KEEPA_KEY (p_asin e) (p_domain e) of
           Inl message \<Rightarrow>
             st1\<lparr>errors := errors st1 @
               [p_asin e @ js '' ('' @ domainLabel (p_domain e) @ js ''): '' @ message]\<rparr>
         | Inr None \<Rightarrow> st1
         | Inr (Some price) \<Rightarrow>
             foldl (patch_file (p_asin e) price (p_currency e)) st1 (uniqueFiles (p_files e)))"

text \<open>\<open>main\<close>; the delays and the messages on the console are left out.\<close>

definition main :: "(jsstring \<Rightarrow> response) \<Rightarrow> jsstring \<Rightarrow> product list \<Rightarrow> disk \<Rightarrow> run" where
  "main net KEEPA_KEY PRODUCTS d =
     foldl (main_step net KEEPA_KEY)
       \<lparr>r_disk = d, r_fetched = [], filesUpdated = 0, asinsChecked = 0, errors = []\<rparr>
       (byKey PRODUCTS)"

section \<open>The Authenticator (signed variant)\<close>






record pa_config =
  pa_host :: jsstring
  pa_region :: jsstring
  pa_tag :: jsstring
  pa_marketplace :: jsstring











section \<open>Auxiliary notions for the proofs\<close>

text \<open>The shape of a line that the price expression matches, with its three groups.\<close>

definition price_line :: "jsstring \<Rightarrow> jsstring \<Rightarrow> jsstring \<Rightarrow> jsstring \<Rightarrow> bool" where
  "price_line l m1 m2 m3 \<longleftrightarrow>
     (\<exists>ws0 ws1 ws2 q q' r.
        l = m1 @ m2 @ m3 \<and>
        m1 = ws0 @ [112, 114, 105, 99, 101] @ ws1 @ [58] @ ws2 @ [q] \<and>
        list_all isSpace ws0 \<and> list_all isSpace ws1 \<and> list_all isSpace ws2 \<and> isQuote q \<and>
        m2 \<noteq> [] \<and> list_all (\<lambda>x. \<not> isQuote x) m2 \<and>
        m3 = q' # r \<and> isQuote q' \<and> \<not> list_ex isLineTerminator r)"

text \<open>
  A line after the Patcher ran: as it was, or a price line whose decision was to rewrite,
  with the formatted price between its quotes.
\<close>

definition patched_line :: "real \<Rightarrow> jsstring \<Rightarrow> jsstring \<Rightarrow> jsstring \<Rightarrow> bool" where
  "patched_line newPrice currency l l' \<longleftrightarrow>
     l' = l \<or>
     (\<exists>m1 m2 m3. price_re l = Some (m1, m2, m3) \<and>
        decide m2 newPrice currency = Rewrite (formatPrice newPrice currency) \<and>
        l' = m1 @ formatPrice newPrice currency @ m3)"

definition patched :: "real \<Rightarrow> jsstring \<Rightarrow> jsstring list \<Rightarrow> jsstring list \<Rightarrow> bool" where
  "patched newPrice currency X Y \<longleftrightarrow>
     length Y = length X \<and> (\<forall>k < length X. patched_line newPrice currency (X ! k) (Y ! k))"


text \<open>What holds of the map after the registry entries \<open>ps\<close> went in.\<close>

definition byKey_inv :: "product list \<Rightarrow> (jsstring \<times> product) list \<Rightarrow> bool" where
  "byKey_inv ps m \<longleftrightarrow>
     distinct (map fst m) \<and>
     (\<forall>(k, e) \<in> set m. product_key e = k) \<and>
     fst ` set m = product_key ` set ps \<and>
     (\<forall>(k, e) \<in> set m. set (p_files e) = (\<Union>p \<in> {p \<in> set ps. product_key p = k}. set (p_files p)))"

section \<open>Properties of the regular expressions and the formatting\<close>

lemma stripPrefix_Some: "stripPrefix p s = Some r \<longleftrightarrow> s = p @ r"
  by (induction p s rule: stripPrefix.induct) auto

lemma not_space_lits: "\<not> isSpace 112" "\<not> isSpace 58" "isQuote q \<Longrightarrow> \<not> isSpace q"
  by (auto simp: isSpace_def isQuote_def)

lemma takeWhile_all_then: "list_all P xs \<Longrightarrow> \<not> P y \<Longrightarrow> takeWhile P (xs @ y # ys) = xs"
  by (induction xs) auto

lemma dropWhile_all_then: "list_all P xs \<Longrightarrow> \<not> P y \<Longrightarrow> dropWhile P (xs @ y # ys) = y # ys"
  by (induction xs) auto

lemma list_all_takeWhile: "list_all P (takeWhile P xs)"
  by (induction xs) auto

lemma price_re_Some_imp: 
  assumes "price_re l = Some (m1, m2, m3)"
  shows "price_line l m1 m2 m3"
proof -
  from assms obtain s1 where s1: "stripPrefix [112, 114, 105, 99, 101] (dropWhile isSpace l) = Some s1"
    by (auto simp: price_re_def Let_def split: option.splits)
  from assms s1 obtain s2 where s2: "dropWhile isSpace s1 = 58 # s2"
    by (auto simp: price_re_def Let_def split: option.splits list.splits if_splits)
  from assms s1 s2 obtain q s3 where s3: "dropWhile isSpace s2 = q # s3" and q: "isQuote q"
    by (auto simp: price_re_def Let_def split: option.splits list.splits if_splits)
  from assms s1 s2 s3 q have m: "m2 = takeWhile (\<lambda>x. \<not> isQuote x) s3" "m3 = dropWhile (\<lambda>x. \<not> isQuote x) s3"
     "m1 = takeWhile isSpace l @ [112, 114, 105, 99, 101] @ takeWhile isSpace s1 @ [58] @ takeWhile isSpace s2 @ [q]"
     "m2 \<noteq> []" "m3 \<noteq> []" "\<not> list_ex isLineTerminator (tl m3)"
    by (auto simp: price_re_def Let_def split: option.splits list.splits if_splits)
  have l1: "l = takeWhile isSpace l @ [112, 114, 105, 99, 101] @ s1"
    using s1 by (metis stripPrefix_Some takeWhile_dropWhile_id)
  have l2: "s1 = takeWhile isSpace s1 @ 58 # s2"
    using s2 by (metis takeWhile_dropWhile_id)
  have l3: "s2 = takeWhile isSpace s2 @ q # s3"
    using s3 by (metis takeWhile_dropWhile_id)
  have l4: "s3 = m2 @ m3"
    using m(1,2) by simp
  have l: "l = m1 @ m2 @ m3"
    by (subst l1, subst l2, subst l3, subst l4) (simp add: m(3))
  obtain q' r where m3: "m3 = q' # r" using m(5) by (cases m3) auto
  have "\<not> (\<lambda>x. \<not> isQuote x) (hd (dropWhile (\<lambda>x. \<not> isQuote x) s3))"
    using m(2,5) hd_dropWhile [of "\<lambda>x. \<not> isQuote x" s3] by simp
  then have q': "isQuote q'" using m(2) m3 by (metis list.sel(1))
  have "list_all (\<lambda>x. \<not> isQuote x) m2" unfolding m(1) by (rule list_all_takeWhile)
  then show ?thesis
    unfolding price_line_def
    using l m(3,4,6) m3 q q' list_all_takeWhile [of isSpace] by (intro exI [of _ "takeWhile isSpace l"] exI [of _ "takeWhile isSpace s1"] exI [of _ "takeWhile isSpace s2"] exI [of _ q] exI [of _ q'] exI [of _ r]) simp
qed

lemma price_line_imp:
  assumes "price_line l m1 m2 m3"
  shows "price_re l = Some (m1, m2, m3)"
proof -
  from assms obtain ws0 ws1 ws2 q q' r where
    l: "l = m1 @ m2 @ m3" and
    m1: "m1 = ws0 @ [112, 114, 105, 99, 101] @ ws1 @ [58] @ ws2 @ [q]" and
    ws: "list_all isSpace ws0" "list_all isSpace ws1" "list_all isSpace ws2" and
    q: "isQuote q" and m2: "m2 \<noteq> []" "list_all (\<lambda>x. \<not> isQuote x) m2" and
    m3: "m3 = q' # r" "isQuote q'" "\<not> list_ex isLineTerminator r"
    unfolding price_line_def by blast
  define s3 where "s3 = m2 @ m3"
  define s2 where "s2 = ws2 @ q # s3"
  define s1 where "s1 = ws1 @ 58 # s2"
  have le: "l = ws0 @ 112 # ([114, 105, 99, 101] @ s1)"
    by (simp add: l m1 s1_def s2_def s3_def)
  have t0: "takeWhile isSpace l = ws0" "dropWhile isSpace l = [112, 114, 105, 99, 101] @ s1"
    unfolding le using ws(1) not_space_lits(1) by (simp_all add: takeWhile_all_then dropWhile_all_then)
  have t1: "takeWhile isSpace s1 = ws1" "dropWhile isSpace s1 = 58 # s2"
    unfolding s1_def using ws(2) not_space_lits(2) by (simp_all add: takeWhile_all_then dropWhile_all_then)
  have t2: "takeWhile isSpace s2 = ws2" "dropWhile isSpace s2 = q # s3"
    unfolding s2_def using ws(3) not_space_lits(3) [OF q] by (simp_all add: takeWhile_all_then dropWhile_all_then)
  have t3: "takeWhile (\<lambda>x. \<not> isQuote x) s3 = m2" "dropWhile (\<lambda>x. \<not> isQuote x) s3 = m3"
    unfolding s3_def m3(1) using m2(2) m3(2) by (simp_all add: takeWhile_all_then dropWhile_all_then)
  have sp: "stripPrefix [112, 114, 105, 99, 101] (dropWhile isSpace l) = Some s1"
    unfolding t0 by (simp add: stripPrefix_Some)
  have "price_re l =
      (if \<not> isQuote q then None
       else if m2 = [] \<or> m3 = [] \<or> list_ex isLineTerminator (tl m3) then None
       else Some (m1, m2, m3))"
    by (simp only: price_re_def Let_def sp t0(1) t1 t2 t3 m1 option.case list.case
        simp_thms if_False)
  then show ?thesis
    using q m2(1) m3 by simp
qed

lemma price_re_Some_iff: "price_re l = Some (m1, m2, m3) \<longleftrightarrow> price_line l m1 m2 m3"
  using price_re_Some_imp price_line_imp by blast

lemma price_line_replace:
  "price_line l m1 m2 m3 \<Longrightarrow> f \<noteq> [] \<Longrightarrow> list_all (\<lambda>x. \<not> isQuote x) f \<Longrightarrow>
   price_line (m1 @ f @ m3) m1 f m3"
  unfolding price_line_def by blast

lemma decimal_digits: "list_all isDigit (decimal n)"
proof (induction n rule: decimal.induct)
  case (1 n)
  show ?case
  proof (cases "n < 10")
    case True
    then show ?thesis by (subst decimal.simps) (simp add: isDigit_def)
  next
    case False
    have "n mod 10 < 10" by simp
    then have "isDigit (48 + n mod 10)" unfolding isDigit_def by linarith
    with False "1.IH" show ?thesis by (subst decimal.simps) simp
  qed
qed

lemma decimal_nonempty: "decimal n \<noteq> []"
  by (subst decimal.simps) simp

lemma numberToString_chars: "list_all (\<lambda>c. isDigit c \<or> c = 45) (numberToString n)"
  using decimal_digits [of "nat n"] decimal_digits [of "nat (- n)"]
  by (auto simp: numberToString_def list_all_iff)

lemma formatPrice_chars:
  "list_all (\<lambda>c. isDigit c \<or> c = 45 \<or> c = dollar \<or> c = euro) (formatPrice newPrice currency)"
  using numberToString_chars [of "math_round newPrice"]
  by (auto simp: formatPrice_def Let_def list_all_iff)

lemma formatPrice_nonempty: "formatPrice newPrice currency \<noteq> []"
  by (simp add: formatPrice_def Let_def)

lemma formatPrice_no_quote: "list_all (\<lambda>x. \<not> isQuote x) (formatPrice newPrice currency)"
  using formatPrice_chars [of newPrice currency]
  by (auto simp: list_all_iff isQuote_def isDigit_def dollar_def euro_def)

lemma formatPrice_no_newline: "newline \<notin> set (formatPrice newPrice currency)"
  using formatPrice_chars [of newPrice currency]
  by (auto simp: list_all_iff newline_def isDigit_def dollar_def euro_def)

lemma decide_Rewrite: "decide s newPrice currency = Rewrite f \<Longrightarrow> f = formatPrice newPrice currency"
  by (auto simp: decide_def split: option.splits if_splits)

lemma price_re_formatted:
  "price_re l = Some (m1, m2, m3) \<Longrightarrow>
   price_re (m1 @ formatPrice newPrice currency @ m3) = Some (m1, formatPrice newPrice currency, m3)"
  using price_line_replace [OF _ formatPrice_nonempty formatPrice_no_quote]
  by (simp add: price_re_Some_iff)

lemma patched_line_refl: "patched_line newPrice currency l l"
  by (simp add: patched_line_def)

lemma patched_line_trans:
  assumes "patched_line newPrice currency a b" "patched_line newPrice currency b c"
  shows "patched_line newPrice currency a c"
proof (cases "b = a")
  case True
  with assms show ?thesis by simp
next
  case False
  with assms(1) obtain m1 m2 m3 where a: "price_re a = Some (m1, m2, m3)"
    "decide m2 newPrice currency = Rewrite (formatPrice newPrice currency)"
    "b = m1 @ formatPrice newPrice currency @ m3"
    unfolding patched_line_def by blast
  have "price_re b = Some (m1, formatPrice newPrice currency, m3)"
    unfolding a(3) by (rule price_re_formatted [OF a(1)])
  with assms(2) have "c = b"
    unfolding patched_line_def using a(3) by auto
  with assms(1) show ?thesis by simp
qed

lemma patched_refl: "patched newPrice currency X X"
  by (simp add: patched_def patched_line_refl)

lemma patched_trans:
  "patched newPrice currency X Y \<Longrightarrow> patched newPrice currency Y Z \<Longrightarrow> patched newPrice currency X Z"
  unfolding patched_def using patched_line_trans by metis

lemma patched_length: "patched newPrice currency X Y \<Longrightarrow> length Y = length X"
  by (simp add: patched_def)

lemma patched_nth:
  "patched newPrice currency X Y \<Longrightarrow> k < length X \<Longrightarrow> patched_line newPrice currency (X ! k) (Y ! k)"
  by (simp add: patched_def)

section \<open>The lookahead loop\<close>

lemma lookahead_stop:
  "\<not> j < min (i + 10) (length X) \<Longrightarrow> lookahead X i j newPrice currency changed = (X, changed)"
  by (auto simp: lookahead.simps [of X i j])

lemma lookahead_asin:
  "j < min (i + 10) (length X) \<Longrightarrow> price_re (X ! j) = None \<Longrightarrow> asin_re (X ! j) \<Longrightarrow>
   lookahead X i j newPrice currency changed = (X, changed)"
  by (simp add: lookahead.simps [of X i j])

lemma lookahead_next:
  "j < min (i + 10) (length X) \<Longrightarrow> price_re (X ! j) = None \<Longrightarrow> \<not> asin_re (X ! j) \<Longrightarrow>
   lookahead X i j newPrice currency changed = lookahead X i (j + 1) newPrice currency changed"
  by (simp add: lookahead.simps [of X i j])

lemma lookahead_price:
  "j < min (i + 10) (length X) \<Longrightarrow> price_re (X ! j) = Some (m1, m2, m3) \<Longrightarrow>
   lookahead X i j newPrice currency changed =
     (case decide m2 newPrice currency of
        Abandon \<Rightarrow> (X, changed)
      | Unchanged \<Rightarrow> (X, changed)
      | Rewrite formatted \<Rightarrow> (X[j := m1 @ formatted @ m3], True))"
  by (simp add: lookahead.simps [of X i j])

text \<open>What one run of the lookahead loop can do: nothing, or one rewrite of a price line.\<close>

lemma lookahead_result:
  "lookahead X i j newPrice currency changed = (X, changed) \<or>
   (\<exists>k m1 m2 m3. j \<le> k \<and> k < min (i + 10) (length X) \<and>
      price_re (X ! k) = Some (m1, m2, m3) \<and>
      decide m2 newPrice currency = Rewrite (formatPrice newPrice currency) \<and>
      lookahead X i j newPrice currency changed =
        (X[k := m1 @ formatPrice newPrice currency @ m3], True))"
proof (induction X i j newPrice currency changed rule: lookahead.induct)
  case (1 lines i j newPrice currency changed)
  show ?case
  proof (cases "j < min (i + 10) (length lines)")
    case False
    then show ?thesis by (simp add: lookahead_stop)
  next
    case inr: True
    show ?thesis
    proof (cases "price_re (lines ! j)")
      case None
      show ?thesis
      proof (cases "asin_re (lines ! j)")
        case True
        with inr None show ?thesis by (simp add: lookahead_asin)
      next
        case False
        have eq: "lookahead lines i j newPrice currency changed =
                  lookahead lines i (j + 1) newPrice currency changed"
          using inr None False by (rule lookahead_next)
        from "1.IH" [OF inr None False] show ?thesis
          unfolding eq by (metis Suc_eq_plus1 Suc_leD)
      qed
    next
      case (Some t)
      obtain m1 m2 m3 where t: "t = (m1, m2, m3)" by (cases t)
      note step = lookahead_price [OF inr Some [unfolded t], of newPrice currency changed]
      show ?thesis
      proof (cases "decide m2 newPrice currency")
        case Abandon
        with step show ?thesis by simp
      next
        case Unchanged
        with step show ?thesis by simp
      next
        case (Rewrite f)
        then have f: "f = formatPrice newPrice currency" by (rule decide_Rewrite)
        have "lookahead lines i j newPrice currency changed =
              (lines[j := m1 @ formatPrice newPrice currency @ m3], True)"
          using step Rewrite f by simp
        with inr Some t Rewrite f show ?thesis by blast
      qed
    qed
  qed
qed

lemma lookahead_patched:
  "patched newPrice currency X (fst (lookahead X i j newPrice currency changed))"
  using lookahead_result [of X i j newPrice currency changed]
  by (auto simp: patched_def patched_line_def nth_list_update)


text \<open>The lookahead of the occurrence at \<open>i\<close> never touches a line from \<open>i + 10\<close> on.\<close>

lemma lookahead_beyond_window:
  "i + 10 \<le> k \<Longrightarrow> fst (lookahead X i j newPrice currency changed) ! k = X ! k"
  using lookahead_result [of X i j newPrice currency changed] by auto

lemma lookahead_flag:
  "snd (lookahead X i j newPrice currency changed) \<or>
   lookahead X i j newPrice currency changed = (X, changed)"
  using lookahead_result [of X i j newPrice currency changed] by auto

lemma lookahead_flag_mono:
  "changed \<Longrightarrow> snd (lookahead X i j newPrice currency changed)"
  using lookahead_result [of X i j newPrice currency changed] by auto

section \<open>The outer loop\<close>

lemma scan_stop:
  "\<not> i < length X \<Longrightarrow> scan X i asin newPrice currency changed = (X, changed)"
  by (simp add: scan.simps [of X i])

lemma scan_skip:
  "i < length X \<Longrightarrow> \<not> asin_re (X ! i) \<or> \<not> includes_js (X ! i) asin \<Longrightarrow>
   scan X i asin newPrice currency changed = scan X (i + 1) asin newPrice currency changed"
  by (auto simp: scan.simps [of X i])

lemma scan_occurrence:
  "i < length X \<Longrightarrow> asin_re (X ! i) \<Longrightarrow> includes_js (X ! i) asin \<Longrightarrow>
   scan X i asin newPrice currency changed =
     scan (fst (lookahead X i (i + 1) newPrice currency changed)) (i + 1) asin newPrice currency
       (snd (lookahead X i (i + 1) newPrice currency changed))"
  by (simp add: scan.simps [of X i] split: prod.splits)

text \<open>Induction along the outer loop, for a fixed identifier, price and currency.\<close>

lemma scan_loop_induct [case_names stop skip occurrence]:
  assumes stop: "\<And>X i changed. \<not> i < length X \<Longrightarrow> P X i changed"
    and skip: "\<And>X i changed. i < length X \<Longrightarrow>
        \<not> asin_re (X ! i) \<or> \<not> includes_js (X ! i) asin \<Longrightarrow>
        P X (i + 1) changed \<Longrightarrow> P X i changed"
    and occurrence: "\<And>X i changed. i < length X \<Longrightarrow>
        asin_re (X ! i) \<Longrightarrow> includes_js (X ! i) asin \<Longrightarrow>
        P (fst (lookahead X i (i + 1) newPrice currency changed)) (i + 1)
          (snd (lookahead X i (i + 1) newPrice currency changed)) \<Longrightarrow>
        P X i changed"
  shows "P X i changed"
proof (induction "length X - i" arbitrary: X i changed rule: less_induct)
  case (less X i changed)
  show ?case
  proof (cases "i < length X")
    case False
    then show ?thesis by (rule stop)
  next
    case inr: True
    show ?thesis
    proof (cases "\<not> asin_re (X ! i) \<or> \<not> includes_js (X ! i) asin")
      case True
      have "P X (i + 1) changed"
        using inr by (intro less) simp
      from inr True this show ?thesis by (rule skip)
    next
      case False
      have "P (fst (lookahead X i (i + 1) newPrice currency changed)) (i + 1)
              (snd (lookahead X i (i + 1) newPrice currency changed))"
        using inr by (intro less) (simp add: length_lookahead)
      with inr False show ?thesis by (auto intro: occurrence)
    qed
  qed
qed

lemma scan_patched:
  "patched newPrice currency X (fst (scan X i asin newPrice currency changed))"
proof (induction X i changed rule: scan_loop_induct [where asin = asin and newPrice = newPrice and currency = currency])
  case (stop X i changed)
  then show ?case by (simp add: scan_stop patched_refl)
next
  case (skip X i changed)
  then show ?case by (simp add: scan_skip)
next
  case (occurrence X i changed)
  from patched_trans [OF lookahead_patched occurrence(4)] show ?case
    by (simp add: scan_occurrence [OF occurrence(1-3)])
qed

lemma scan_length: "length (fst (scan X i asin newPrice currency changed)) = length X"
  using scan_patched [of newPrice currency X i asin changed] by (rule patched_length)


text \<open>The flag: once set it stays set, and while it is not set nothing was rewritten.\<close>

lemma scan_flag_mono:
  "changed \<Longrightarrow> snd (scan X i asin newPrice currency changed)"
proof (induction X i changed rule: scan_loop_induct [where asin = asin and newPrice = newPrice and currency = currency])
  case (stop X i changed)
  then show ?case by (simp add: scan_stop)
next
  case (skip X i changed)
  then show ?case by (simp add: scan_skip)
next
  case (occurrence X i changed)
  then show ?case
    by (simp add: scan_occurrence [OF occurrence(1-3)] lookahead_flag_mono)
qed

lemma scan_flag:
  "snd (scan X i asin newPrice currency changed) \<or>
   scan X i asin newPrice currency changed = (X, changed)"
proof (induction X i changed rule: scan_loop_induct [where asin = asin and newPrice = newPrice and currency = currency])
  case (stop X i changed)
  then show ?case by (simp add: scan_stop)
next
  case (skip X i changed)
  then show ?case by (simp add: scan_skip)
next
  case (occurrence X i changed)
  show ?case
  proof (cases "snd (lookahead X i (i + 1) newPrice currency changed)")
    case True
    then show ?thesis
      by (simp add: scan_occurrence [OF occurrence(1-3)] scan_flag_mono)
  next
    case False
    with lookahead_flag [of X i "i + 1" newPrice currency changed]
    have "lookahead X i (i + 1) newPrice currency changed = (X, changed)" by simp
    with occurrence(4) show ?thesis
      by (simp add: scan_occurrence [OF occurrence(1-3)])
  qed
qed

section \<open>A second run\<close>


lemma patched_line_cases:
  assumes "patched_line newPrice currency l l'"
  obtains (same) "l' = l"
  | (rewritten) m1 m2 m3 where "price_re l = Some (m1, m2, m3)"
      "decide m2 newPrice currency = Rewrite (formatPrice newPrice currency)"
      "l' = m1 @ formatPrice newPrice currency @ m3"
      "price_re l' = Some (m1, formatPrice newPrice currency, m3)"
  using assms price_re_formatted unfolding patched_line_def by blast



section \<open>Lines and files\<close>

lemma split_nl_nonempty: "split_nl s \<noteq> []"
  by (induction s) (auto split: list.splits)

lemma join_split_nl: "join_nl (split_nl s) = s"
proof (induction s)
  case Nil
  show ?case by simp
next
  case (Cons c s)
  obtain l ls where sp: "split_nl s = l # ls"
    using split_nl_nonempty [of s] by (cases "split_nl s") auto
  with Cons show ?case
    by (cases ls) (auto simp: newline_def)
qed

lemma split_nl_line: "newline \<notin> set l \<Longrightarrow> split_nl l = [l]"
  by (induction l) auto

lemma split_nl_append: "newline \<notin> set l \<Longrightarrow> split_nl (l @ newline # s) = l # split_nl s"
  by (induction l) auto

lemma split_join_nl:
  "ls \<noteq> [] \<Longrightarrow> \<forall>l \<in> set ls. newline \<notin> set l \<Longrightarrow> split_nl (join_nl ls) = ls"
  by (induction ls rule: join_nl.induct) (auto simp: split_nl_line split_nl_append)

lemma split_nl_no_newline: "\<forall>l \<in> set (split_nl s). newline \<notin> set l"
  by (induction s) (auto split: list.splits)

lemma patched_line_no_newline:
  assumes "patched_line newPrice currency l l'" "newline \<notin> set l"
  shows "newline \<notin> set l'"
  using assms(1)
proof (cases rule: patched_line_cases)
  case same
  with assms(2) show ?thesis by simp
next
  case (rewritten m1 m2 m3)
  then have "l = m1 @ m2 @ m3" by (simp add: price_re_Some_iff price_line_def)
  with assms(2) rewritten(3) formatPrice_no_newline show ?thesis by auto
qed

lemma patched_no_newline:
  assumes "patched newPrice currency X Y" "\<forall>l \<in> set X. newline \<notin> set l"
  shows "\<forall>l \<in> set Y. newline \<notin> set l"
proof
  fix l assume "l \<in> set Y"
  then obtain k where k: "k < length Y" "l = Y ! k" by (auto simp: in_set_conv_nth)
  with assms(1) have kx: "k < length X" by (simp add: patched_def)
  from patched_line_no_newline [OF patched_nth [OF assms(1) kx]] assms(2) kx k
  show "newline \<notin> set l" by simp
qed


lemma updateFilePrice_found:
  "contents d filePath = Some content \<Longrightarrow>
   updateFilePrice d filePath asin newPrice currency =
     (if snd (scan (split_nl content) 0 asin newPrice currency False)
      then writeFileSync d filePath (join_nl (fst (scan (split_nl content) 0 asin newPrice currency False)))
      else d,
      snd (scan (split_nl content) 0 asin newPrice currency False))"
  by (simp add: updateFilePrice_def split: prod.splits)

lemma split_join_scan:
  "split_nl (join_nl (fst (scan (split_nl content) i asin newPrice currency changed))) =
   fst (scan (split_nl content) i asin newPrice currency changed)"
proof (rule split_join_nl)
  have "length (fst (scan (split_nl content) i asin newPrice currency changed)) = length (split_nl content)"
    by (rule scan_length)
  then show "fst (scan (split_nl content) i asin newPrice currency changed) \<noteq> []"
    using split_nl_nonempty [of content] by (metis length_0_conv)
  show "\<forall>l \<in> set (fst (scan (split_nl content) i asin newPrice currency changed)). newline \<notin> set l"
    using patched_no_newline [OF scan_patched split_nl_no_newline] .
qed

section \<open>Reaching the matched line\<close>


lemma lookahead_interrupted:
  assumes "j0 \<le> j" and "j < length X" and "asin_re (X ! j)"
    and "\<forall>k. j0 \<le> k \<and> k \<le> j \<longrightarrow> price_re (X ! k) = None"
  shows "lookahead X i j0 newPrice currency changed = (X, changed)"
  using assms(1,4)
proof (induction rule: inc_induct)
  case base
  then have "price_re (X ! j) = None" by simp
  with assms(2,3) show ?case
    by (cases "j < min (i + 10) (length X)") (simp_all add: lookahead_asin lookahead_stop)
next
  case (step n)
  have pn: "price_re (X ! n) = None" using step by auto
  show ?case
  proof (cases "n < min (i + 10) (length X)")
    case False
    then show ?thesis by (simp add: lookahead_stop)
  next
    case True
    show ?thesis
    proof (cases "asin_re (X ! n)")
      case asin: True
      from lookahead_asin [OF True pn asin] show ?thesis .
    next
      case False
      from lookahead_next [OF True pn False]
      have "lookahead X i n newPrice currency changed = lookahead X i (Suc n) newPrice currency changed"
        by simp
      also have "\<dots> = (X, changed)" using step by auto
      finally show ?thesis .
    qed
  qed
qed

lemma parseFloat_nonneg: "parseFloat s = Some c \<Longrightarrow> 0 \<le> c"
  by (auto simp: parseFloat_def Let_def split: if_splits)

lemma decide_Abandon_iff:
  "decide s newPrice currency = Abandon \<longleftrightarrow>
     parseFloat (stripNonNumeric s) = None \<or> parseFloat (stripNonNumeric s) = Some 0"
  by (auto simp: decide_def changePct_def js_div_def split: option.splits if_splits)


section \<open>Abandoned occurrences, the shape of a rewrite, the flag\<close>

lemma scan_all_interrupted:
  assumes "\<forall>i < length X. asin_re (X ! i) \<and> includes_js (X ! i) asin \<longrightarrow>
     (\<exists>j. i < j \<and> j < length X \<and> asin_re (X ! j) \<and>
          (\<forall>k. i < k \<and> k \<le> j \<longrightarrow> price_re (X ! k) = None))"
  shows "scan X i asin newPrice currency changed = (X, changed)"
  using assms
proof (induction X i changed rule: scan_loop_induct [where asin = asin and newPrice = newPrice and currency = currency])
  case (stop X i changed)
  then show ?case by (simp add: scan_stop)
next
  case (skip X i changed)
  then show ?case by (simp add: scan_skip)
next
  case (occurrence X i changed)
  from occurrence(1-3,5) obtain j where j: "i < j" "j < length X" "asin_re (X ! j)"
    "\<forall>k. i < k \<and> k \<le> j \<longrightarrow> price_re (X ! k) = None" by blast
  have "lookahead X i (i + 1) newPrice currency changed = (X, changed)"
    using j by (intro lookahead_interrupted [of _ j]) auto
  with occurrence(4,5) show ?case
    by (simp add: scan_occurrence [OF occurrence(1-3)])
qed

lemma scan_keeps_abandoned:
  assumes "price_re (X ! j) = Some (m1, currentStr, m3)" and "j < length X"
    and "decide currentStr newPrice currency = Abandon"
  shows "fst (scan X i asin newPrice currency changed) ! j = X ! j"
  using patched_nth [OF scan_patched assms(2), of newPrice currency i asin changed] assms(1,3)
  by (auto simp: patched_line_def)

lemma patched_line_shape:
  assumes "patched_line newPrice currency l l'"
  shows "l' = l \<or>
     (\<exists>m1 m2 m3. price_re l = Some (m1, m2, m3) \<and> l = m1 @ m2 @ m3 \<and>
        l' = m1 @ formatPrice newPrice currency @ m3 \<and>
        isQuote (last m1) \<and> isQuote (hd m3) \<and> list_all (\<lambda>c. \<not> isQuote c) m2 \<and>
        list_all (\<lambda>c. \<not> isQuote c) (formatPrice newPrice currency) \<and>
        takeWhile isSpace l' = takeWhile isSpace l)"
  using assms
proof (cases rule: patched_line_cases)
  case same
  then show ?thesis by simp
next
  case (rewritten m1 m2 m3)
  from rewritten(1) obtain ws0 ws1 ws2 q q' r where
    l: "l = m1 @ m2 @ m3" and
    m1: "m1 = ws0 @ [112, 114, 105, 99, 101] @ ws1 @ [58] @ ws2 @ [q]" and
    ws: "list_all isSpace ws0" and q: "isQuote q" and
    m2: "list_all (\<lambda>x. \<not> isQuote x) m2" and m3: "m3 = q' # r" "isQuote q'"
    unfolding price_re_Some_iff price_line_def by blast
  have tw: "takeWhile isSpace (m1 @ s) = ws0" for s
    unfolding m1 using takeWhile_all_then [OF ws not_space_lits(1)] by simp
  have "takeWhile isSpace l' = takeWhile isSpace l"
    unfolding rewritten(3) l tw ..
  moreover have "isQuote (last m1)" using q by (simp add: m1)
  moreover have "isQuote (hd m3)" using m3 by simp
  ultimately show ?thesis
    using rewritten(1,3) l m2 formatPrice_no_quote by blast
qed




section \<open>The registry map and the log of fetches\<close>

lemma digitsValue_snoc: "digitsValue acc (xs @ [c]) = 10 * digitsValue acc xs + (c - 48)"
  by (induction xs arbitrary: acc) auto

lemma digitsValue_decimal: "digitsValue 0 (decimal n) = n"
proof (induction n rule: decimal.induct)
  case (1 n)
  show ?case
  proof (cases "n < 10")
    case True
    then show ?thesis by (subst decimal.simps) simp
  next
    case False
    with "1.IH" show ?thesis
      by (subst decimal.simps) (simp add: digitsValue_snoc)
  qed
qed

lemma decimal_inject: "decimal n = decimal m \<Longrightarrow> n = m"
  by (metis digitsValue_decimal)

lemma decimal_no_dash: "45 \<notin> set (decimal n)"
  using decimal_digits [of n] by (auto simp: list_all_iff isDigit_def)

lemma takeWhile_until: "x \<notin> set zs \<Longrightarrow> takeWhile (\<lambda>y. y \<noteq> x) (zs @ x # ws) = zs"
  by (induction zs) auto

lemma append_sep_inject:
  assumes "x \<notin> set ys" "x \<notin> set ys'" "xs @ x # ys = xs' @ x # ys'"
  shows "xs = xs' \<and> ys = ys'"
proof -
  have "rev ys @ x # rev xs = rev ys' @ x # rev xs'"
    using arg_cong [OF assms(3), of rev] by simp
  then have "takeWhile (\<lambda>y. y \<noteq> x) (rev ys @ x # rev xs) =
             takeWhile (\<lambda>y. y \<noteq> x) (rev ys' @ x # rev xs')" by simp
  moreover have "takeWhile (\<lambda>y. y \<noteq> x) (rev ys @ x # rev xs) = rev ys"
    using assms(1) by (intro takeWhile_until) simp
  moreover have "takeWhile (\<lambda>y. y \<noteq> x) (rev ys' @ x # rev xs') = rev ys'"
    using assms(2) by (intro takeWhile_until) simp
  ultimately have "ys = ys'" by simp
  with assms(3) show ?thesis by simp
qed

lemma product_key_inject:
  "product_key p = product_key q \<Longrightarrow> p_asin p = p_asin q \<and> p_domain p = p_domain q"
  unfolding product_key_def
  using append_sep_inject [OF decimal_no_dash decimal_no_dash, of "p_asin p" "p_domain p" "p_asin q" "p_domain q"]
    decimal_inject by auto

lemma set_merge_files: "set (merge_files files fs) = set files \<union> set fs"
  by (induction fs arbitrary: files) auto

lemma distinct_merge_files: "distinct files \<Longrightarrow> distinct (merge_files files fs)"
  by (induction fs arbitrary: files) auto

lemma uniqueFiles_set: "set (uniqueFiles files) = set files" "distinct (uniqueFiles files)"
  by (simp_all add: uniqueFiles_def set_merge_files distinct_merge_files)

lemma byKey_inv_files:
  "byKey_inv ps m \<Longrightarrow> (k, e) \<in> set m \<Longrightarrow>
   set (p_files e) = (\<Union>p \<in> {p \<in> set ps. product_key p = k}. set (p_files p))"
  unfolding byKey_inv_def by blast

lemma byKey_inv_key: "byKey_inv ps m \<Longrightarrow> (k, e) \<in> set m \<Longrightarrow> product_key e = k"
  unfolding byKey_inv_def by blast

lemma byKey_inv_empty: "byKey_inv [] []"
  by (simp add: byKey_inv_def)

lemma byKey_inv_add:
  assumes "byKey_inv ps m"
  shows "byKey_inv (ps @ [p]) (byKey_add m p)"
proof (cases "product_key p \<in> fst ` set m")
  case False
  then have eq: "byKey_add m p = m @ [(product_key p, p)]" by (simp add: byKey_add_def)
  have np: "product_key p \<notin> product_key ` set ps"
    using False assms unfolding byKey_inv_def by simp
  have i1: "distinct (map fst (m @ [(product_key p, p)]))"
    using assms False unfolding byKey_inv_def by simp
  have i2: "\<forall>(k, e) \<in> set (m @ [(product_key p, p)]). product_key e = k"
    using assms unfolding byKey_inv_def by auto
  have i3: "fst ` set (m @ [(product_key p, p)]) = product_key ` set (ps @ [p])"
    using assms unfolding byKey_inv_def by auto
  have i4: "\<forall>(k, e) \<in> set (m @ [(product_key p, p)]).
      set (p_files e) = (\<Union>q \<in> {q \<in> set (ps @ [p]). product_key q = k}. set (p_files q))"
  proof (intro ballI, clarify)
    fix k e assume "(k, e) \<in> set (m @ [(product_key p, p)])"
    then consider (old) "(k, e) \<in> set m" | (new) "k = product_key p" "e = p" by auto
    then show "set (p_files e) = (\<Union>q \<in> {q \<in> set (ps @ [p]). product_key q = k}. set (p_files q))"
    proof cases
      case old
      then have "k \<noteq> product_key p" using False by force
      then have "{q \<in> set (ps @ [p]). product_key q = k} = {q \<in> set ps. product_key q = k}"
        by auto
      moreover from assms old
      have "set (p_files e) = (\<Union>q \<in> {q \<in> set ps. product_key q = k}. set (p_files q))"
        by (rule byKey_inv_files)
      ultimately show ?thesis by simp
    next
      case new
      have "product_key q \<noteq> product_key p" if "q \<in> set ps" for q
        using np that by (metis imageI)
      then have "{q \<in> set (ps @ [p]). product_key q = product_key p} = {p}"
        by auto
      with new show ?thesis by simp
    qed
  qed
  from i1 i2 i3 i4 show ?thesis unfolding eq byKey_inv_def by blast
next
  case True
  let ?f = "\<lambda>(k, e). if k = product_key p
                          then (k, e\<lparr>p_files := merge_files (p_files e) (p_files p)\<rparr>)
                          else (k, e)"
  have eq: "byKey_add m p = map ?f m" using True by (simp add: byKey_add_def)
  have fst_f: "fst (?f x) = fst x" for x by (cases x) simp
  have keys: "map fst (map ?f m) = map fst m" by (simp add: fst_f comp_def)
  have i1: "distinct (map fst (map ?f m))" using assms unfolding keys byKey_inv_def by simp
  have i2: "\<forall>(k, e) \<in> set (map ?f m). product_key e = k"
  proof (intro ballI, clarify)
    fix k e assume "(k, e) \<in> set (map ?f m)"
    then obtain e0 where e0: "(k, e0) \<in> set m"
      and e: "e = (if k = product_key p then e0\<lparr>p_files := merge_files (p_files e0) (p_files p)\<rparr> else e0)"
      by (auto split: if_splits)
    from e have "product_key e = product_key e0" by (simp add: product_key_def)
    with byKey_inv_key [OF assms e0] show "product_key e = k" by simp
  qed
  have i3: "fst ` set (map ?f m) = product_key ` set (ps @ [p])"
  proof -
    have "fst ` set (map ?f m) = fst ` set m"
      using arg_cong [OF keys, of set] by (simp only: set_map)
    also have "\<dots> = product_key ` set (ps @ [p])"
      using assms True unfolding byKey_inv_def by auto
    finally show ?thesis .
  qed
  have i4: "\<forall>(k, e) \<in> set (map ?f m).
      set (p_files e) = (\<Union>q \<in> {q \<in> set (ps @ [p]). product_key q = k}. set (p_files q))"
  proof (intro ballI, clarify)
    fix k e assume "(k, e) \<in> set (map ?f m)"
    then obtain e0 where e0: "(k, e0) \<in> set m"
      and e: "e = (if k = product_key p then e0\<lparr>p_files := merge_files (p_files e0) (p_files p)\<rparr> else e0)"
      by (auto split: if_splits)
    from assms e0 have old: "set (p_files e0) = (\<Union>q \<in> {q \<in> set ps. product_key q = k}. set (p_files q))"
      by (rule byKey_inv_files)
    show "set (p_files e) = (\<Union>q \<in> {q \<in> set (ps @ [p]). product_key q = k}. set (p_files q))"
    proof (cases "k = product_key p")
      case True
      then have "set (p_files e) = set (p_files e0) \<union> set (p_files p)"
        using e by (simp add: set_merge_files)
      with old True show ?thesis by auto
    next
      case False
      with e old show ?thesis by auto
    qed
  qed
  from i1 i2 i3 i4 show ?thesis unfolding eq byKey_inv_def by blast
qed

lemma byKey_inv_foldl: "byKey_inv ps m \<Longrightarrow> byKey_inv (ps @ qs) (foldl byKey_add m qs)"
proof (induction qs arbitrary: ps m)
  case Nil
  then show ?case by simp
next
  case (Cons q qs)
  from Cons.IH [OF byKey_inv_add [OF Cons.prems, of q]] show ?case by simp
qed

lemma byKey_inv: "byKey_inv ps (byKey ps)"
  using byKey_inv_foldl [OF byKey_inv_empty, of ps] by (simp add: byKey_def)

lemma patch_file_fetched: "r_fetched (patch_file asin price currency st file) = r_fetched st"
  by (simp add: patch_file_def split: prod.splits)

lemma foldl_patch_file_fetched:
  "r_fetched (foldl (patch_file asin price currency) st fs) = r_fetched st"
  by (induction fs arbitrary: st) (simp_all add: patch_file_fetched)

lemma main_step_fetched:
  "r_fetched (main_step net KEEPA_KEY st entry) =
     r_fetched st @ [(p_asin (snd entry), p_domain (snd entry))]"
  by (simp add: main_step_def Let_def foldl_patch_file_fetched split: sum.splits option.splits)

lemma foldl_main_step_fetched:
  "r_fetched (foldl (main_step net KEEPA_KEY) st entries) =
     r_fetched st @ map (\<lambda>entry. (p_asin (snd entry), p_domain (snd entry))) entries"
  by (induction entries arbitrary: st) (simp_all add: main_step_fetched)

lemma main_fetched:
  "r_fetched (main net KEEPA_KEY ps d) =
     map (\<lambda>entry. (p_asin (snd entry), p_domain (snd entry))) (byKey ps)"
  by (simp add: main_def foldl_main_step_fetched)

lemma byKey_pairs_distinct:
  "distinct (map (\<lambda>entry. (p_asin (snd entry), p_domain (snd entry))) (byKey ps))"
proof -
  let ?g = "\<lambda>(a, n). a @ [45] @ decimal n"
  let ?h = "\<lambda>entry. (p_asin (snd entry), p_domain (snd entry))"
  have e: "map fst (byKey ps) = map ?g (map ?h (byKey ps))"
    using byKey_inv [of ps] unfolding byKey_inv_def by (auto simp: product_key_def)
  have "distinct (map fst (byKey ps))"
    using byKey_inv [of ps] unfolding byKey_inv_def by simp
  then have "distinct (map ?g (map ?h (byKey ps)))" by (simp only: e)
  then show ?thesis by (rule distinct_map [THEN iffD1, THEN conjunct1])
qed

lemma byKey_pairs_set:
  "set (map (\<lambda>entry. (p_asin (snd entry), p_domain (snd entry))) (byKey ps)) =
     (\<lambda>p. (p_asin p, p_domain p)) ` set ps"
proof (intro set_eqI iffI)
  fix x assume "x \<in> set (map (\<lambda>entry. (p_asin (snd entry), p_domain (snd entry))) (byKey ps))"
  then obtain k e where ke: "(k, e) \<in> set (byKey ps)" and x: "x = (p_asin e, p_domain e)" by auto
  from ke byKey_inv [of ps] have "product_key e = k" "k \<in> product_key ` set ps"
    unfolding byKey_inv_def by (auto simp: rev_image_eqI)
  then obtain p where "p \<in> set ps" "product_key p = product_key e" by auto
  with product_key_inject [of p e] x have "x = (\<lambda>p. (p_asin p, p_domain p)) p" "p \<in> set ps"
    by simp_all
  then show "x \<in> (\<lambda>p. (p_asin p, p_domain p)) ` set ps" by blast
next
  fix x assume "x \<in> (\<lambda>p. (p_asin p, p_domain p)) ` set ps"
  then obtain p where p: "p \<in> set ps" "x = (p_asin p, p_domain p)" by auto
  with byKey_inv [of ps] have "product_key p \<in> fst ` set (byKey ps)"
    unfolding byKey_inv_def by auto
  then obtain e where ke: "(product_key p, e) \<in> set (byKey ps)" by auto
  with byKey_inv [of ps] have "product_key e = product_key p"
    unfolding byKey_inv_def by auto
  with product_key_inject [of e p] p ke
  show "x \<in> set (map (\<lambda>entry. (p_asin (snd entry), p_domain (snd entry))) (byKey ps))"
    by force
qed

lemma count_list_distinct: "distinct xs \<Longrightarrow> count_list xs x = (if x \<in> set xs then 1 else 0)"
  by (induction xs) auto

section \<open>Example files\<close>

definition ex_asin :: jsstring where
  "ex_asin = js ''B0TEST0001''"

definition ex_path :: jsstring where
  "ex_path = js ''src/pages/index.astro''"

text \<open>A page with one product block; the argument is the text between the quotes of its price.\<close>

definition ex_page :: "jsstring \<Rightarrow> jsstring" where
  "ex_page price =
     js ''  { asin: \"B0TEST0001\",'' @ [newline] @
     js ''    price: \"'' @ price @ js ''\",'' @ [newline] @
     js ''  },''"

definition ex_disk :: "jsstring \<Rightarrow> disk" where
  "ex_disk content = \<lparr>contents = [ex_path \<mapsto> content], writes = []\<rparr>"

text \<open>Two product blocks; the first has no price field.\<close>

definition ex_two_blocks :: jsstring where
  "ex_two_blocks =
     js ''  { asin: \"B0TEST0001\",'' @ [newline] @
     js ''    name: \"Desk\" },'' @ [newline] @
     js ''  { asin: \"B0TEST0002\",'' @ [newline] @
     js ''    price: \"100'' @ [euro] @ js ''\" },''"

text \<open>
  One product block with \<open>n\<close> lines between the \<open>asin:\<close> line (index 0) and the price
  line (index \<open>n + 1\<close>).
\<close>

definition ex_far_page :: "nat \<Rightarrow> jsstring" where
  "ex_far_page n =
     join_nl ([js ''  { asin: \"B0TEST0001\",''] @ replicate n (js ''    note: 1,'') @
              [js ''    price: \"100'' @ [euro] @ js ''\",'', js ''  },''])"

text \<open>A successful Keepa response with the given price slots.\<close>

definition ex_response :: "real option list \<Rightarrow> response" where
  "ex_response slots =
     \<lparr>res_ok = True, res_status = 200,
      res_json = \<lparr>da_products = Some [\<lparr>pr_stats = Some \<lparr>st_current = Some slots\<rparr>\<rparr>]\<rparr>\<rparr>"

text \<open>
  A registry that names \<open>B0TEST0001\<close> on the French market twice, with file lists that
  overlap; the upstream has the buy-box price \<open>106.40\<close>.
\<close>

definition ex_path2 :: jsstring where
  "ex_path2 = js ''src/pages/home-office-setup.astro''"

definition ex_registry :: "product list" where
  "ex_registry =
     [\<lparr>p_asin = ex_asin, p_domain = 4, p_currency = [euro], p_files = [ex_path]\<rparr>,
      \<lparr>p_asin = ex_asin, p_domain = 4, p_currency = [euro], p_files = [ex_path, ex_path2]\<rparr>]"

definition ex_net :: "jsstring \<Rightarrow> response" where
  "ex_net url =
     \<lparr>res_ok = True, res_status = 200,
      res_json = \<lparr>da_products = Some [\<lparr>pr_stats = Some \<lparr>st_current =
        Some [Some (- 1), Some 10990, None, None, None, None, None, None, None, None, Some 10640]\<rparr>\<rparr>]\<rparr>\<rparr>"

definition ex_disk2 :: disk where
  "ex_disk2 =
     \<lparr>contents = [ex_path \<mapsto> ex_page (js ''100'' @ [euro]), ex_path2 \<mapsto> ex_page (js ''100'' @ [euro])],
      writes = []\<rparr>"

lemmas eval_chars = js_def euro_def dollar_def newline_def isSpace_def isQuote_def
  isLineTerminator_def isDigit_def isDigitOrDot_def

lemmas eval_patcher = price_re_def asin_re_here_def parseFloat_def stripNonNumeric_def
  decide_def changePct_def js_div_def MIN_CHANGE_PCT_def formatPrice_def math_round_def
  numberToString_def decimal.simps Let_def lookahead.simps scan.simps updateFilePrice_def
  writeFileSync_def

lemmas eval_examples = ex_asin_def ex_path_def ex_page_def ex_disk_def



lemma ex_parse_100: "parseFloat (stripNonNumeric (js ''100'' @ [euro])) = Some 100"
  by (simp add: eval_chars eval_patcher)




lemma ex_threshold_103:
  "updateFilePrice (ex_disk (ex_page (js ''100'' @ [euro]))) ex_path ex_asin 103 [euro] =
     (\<lparr>contents = [ex_path \<mapsto> ex_page (js ''103'' @ [euro])],
       writes = [(ex_path, ex_page (js ''103'' @ [euro]))]\<rparr>, True)"
  by (simp add: eval_examples eval_chars eval_patcher)

lemma replicate_9: "replicate 9 x = [x, x, x, x, x, x, x, x, x]"
  by (simp add: eval_nat_numeral)

lemma replicate_8: "replicate 8 x = [x, x, x, x, x, x, x, x]"
  by (simp add: eval_nat_numeral)

text \<open>A price that is no number at all: the occurrence is given up as well.\<close>

lemma ex_unparsable:
  "updateFilePrice (ex_disk (ex_page (js ''free''))) ex_path ex_asin 50 [euro] =
     (ex_disk (ex_page (js ''free'')), False)"
  by (simp add: eval_examples eval_chars eval_patcher)

text \<open>The format example of the specification: \<open>49\<euro>\<close> in double quotes becomes \<open>52\<euro>\<close>.\<close>

lemma ex_format_49:
  "updateFilePrice (ex_disk (ex_page (js ''49'' @ [euro]))) ex_path ex_asin 52 [euro] =
     (\<lparr>contents = [ex_path \<mapsto> ex_page (js ''52'' @ [euro])],
       writes = [(ex_path, ex_page (js ''52'' @ [euro]))]\<rparr>, True)"
  by (simp add: eval_examples eval_chars eval_patcher)

text \<open>
  The end-to-end scenario on the Keepa variant: one fetch, both files rewritten to
  \<open>106\<euro>\<close>, two files updated, one identifier checked, no error.
\<close>

lemma ex_byKey:
  "byKey ex_registry =
     [(js ''B0TEST0001-4'',
       \<lparr>p_asin = ex_asin, p_domain = 4, p_currency = [euro], p_files = [ex_path, ex_path2]\<rparr>)]"
  by (simp add: byKey_def byKey_add_def product_key_def ex_registry_def ex_asin_def ex_path_def
      ex_path2_def js_def decimal.simps)

lemma ex_fetch: "fetchKeepaPrice ex_net (js ''key'') ex_asin 4 = Inr (Some (532 / 5))"
  by (simp add: fetchKeepaPrice_def ex_net_def current_at_def present_positive_def)

lemma ex_run:
  "main ex_net (js ''key'') ex_registry ex_disk2 =
     \<lparr>r_disk = \<lparr>contents = [ex_path \<mapsto> ex_page (js ''106'' @ [euro]),
                             ex_path2 \<mapsto> ex_page (js ''106'' @ [euro])],
                 writes = [(ex_path, ex_page (js ''106'' @ [euro])),
                           (ex_path2, ex_page (js ''106'' @ [euro]))]\<rparr>,
      r_fetched = [(ex_asin, 4)], filesUpdated = 2, asinsChecked = 1, errors = []\<rparr>"
  unfolding main_def ex_byKey
  by (simp add: main_step_def ex_fetch uniqueFiles_def patch_file_def ex_disk2_def)
     (simp add: ex_path2_def eval_examples eval_chars eval_patcher)

section \<open>The claims\<close>



text \<open>
  Claim C2. After an identifier line at index \<open>i\<close> the Patcher is said to look at the
  next 10 lines, \<open>i + 1\<close> to \<open>i + 10\<close>. The loop runs while
  \<open>j < Math.min(i + 10, lines.length)\<close>, so it looks at the nine lines \<open>i + 1\<close> to
  \<open>i + 9\<close>: a price line at index 10 after an identifier line at index 0 is not found
  (the file stays as it is and the result is false), while the same price line at index 9
  is found and rewritten.
\<close>

theorem tenth_line_not_reached:
  "split_nl (ex_far_page 9) ! 0 = js ''  { asin: \"B0TEST0001\",'' \<and>
   split_nl (ex_far_page 9) ! 10 = js ''    price: \"100'' @ [euro] @ js ''\",'' \<and>
   updateFilePrice (ex_disk (ex_far_page 9)) ex_path ex_asin 200 [euro] =
     (ex_disk (ex_far_page 9), False) \<and>
   split_nl (ex_far_page 8) ! 9 = js ''    price: \"100'' @ [euro] @ js ''\",'' \<and>
   snd (updateFilePrice (ex_disk (ex_far_page 8)) ex_path ex_asin 200 [euro])"
  by (simp add: ex_far_page_def replicate_9 replicate_8 eval_examples eval_chars eval_patcher)






text \<open>
  Claim C5. After \<open>updateFilePrice\<close> the file has the same number of lines, and every
  line is either byte-identical to what it was or a matched price line \<open>m1 @ m2 @ m3\<close>
  that became \<open>m1 @ formatted @ m3\<close>: the text up to and including the opening quote
  (with the leading white space) and the text from the closing quote on are kept, and only
  the text between the quotes is replaced. No other file changes. A field declared as
  \<open>price: "49\<euro>"\<close> becomes \<open>"52\<euro>"\<close>.
\<close>

theorem rewrite_preserves_format:
  assumes "contents d filePath = Some content"
  shows "\<exists>content'.
     contents (fst (updateFilePrice d filePath asin newPrice currency)) filePath = Some content' \<and>
     length (split_nl content') = length (split_nl content) \<and>
     (\<forall>k < length (split_nl content).
        split_nl content' ! k = split_nl content ! k \<or>
        (\<exists>m1 m2 m3. price_re (split_nl content ! k) = Some (m1, m2, m3) \<and>
           split_nl content ! k = m1 @ m2 @ m3 \<and>
           split_nl content' ! k = m1 @ formatPrice newPrice currency @ m3 \<and>
           isQuote (last m1) \<and> isQuote (hd m3) \<and> list_all (\<lambda>c. \<not> isQuote c) m2 \<and>
           list_all (\<lambda>c. \<not> isQuote c) (formatPrice newPrice currency) \<and>
           takeWhile isSpace (split_nl content' ! k) = takeWhile isSpace (split_nl content ! k))) \<and>
     (\<forall>p. p \<noteq> filePath \<longrightarrow>
        contents (fst (updateFilePrice d filePath asin newPrice currency)) p = contents d p)"
proof -
  let ?r = "scan (split_nl content) 0 asin newPrice currency False"
  let ?content' = "if snd ?r then join_nl (fst ?r) else content"
  have c: "contents (fst (updateFilePrice d filePath asin newPrice currency)) filePath = Some ?content'"
    using assms by (simp add: updateFilePrice_found writeFileSync_def)
  have o: "\<forall>p. p \<noteq> filePath \<longrightarrow>
        contents (fst (updateFilePrice d filePath asin newPrice currency)) p = contents d p"
    using assms by (simp add: updateFilePrice_found writeFileSync_def)
  have sp: "split_nl ?content' = fst ?r"
    using scan_flag [of "split_nl content" 0 asin newPrice currency False]
    by (auto simp: split_join_scan)
  have p: "patched newPrice currency (split_nl content) (split_nl ?content')"
    unfolding sp by (rule scan_patched)
  have len: "length (split_nl ?content') = length (split_nl content)"
    using p by (rule patched_length)
  have ln: "\<forall>k < length (split_nl content).
        split_nl ?content' ! k = split_nl content ! k \<or>
        (\<exists>m1 m2 m3. price_re (split_nl content ! k) = Some (m1, m2, m3) \<and>
           split_nl content ! k = m1 @ m2 @ m3 \<and>
           split_nl ?content' ! k = m1 @ formatPrice newPrice currency @ m3 \<and>
           isQuote (last m1) \<and> isQuote (hd m3) \<and> list_all (\<lambda>c. \<not> isQuote c) m2 \<and>
           list_all (\<lambda>c. \<not> isQuote c) (formatPrice newPrice currency) \<and>
           takeWhile isSpace (split_nl ?content' ! k) = takeWhile isSpace (split_nl content ! k))"
    using patched_line_shape [OF patched_nth [OF p]] by blast
  from c len ln o show ?thesis by blast
qed

theorem rewrite_preserves_format_witness:
  "contents (ex_disk (ex_page (js ''49'' @ [euro]))) ex_path = Some (ex_page (js ''49'' @ [euro])) \<and>
   contents (fst (updateFilePrice (ex_disk (ex_page (js ''49'' @ [euro]))) ex_path ex_asin 52 [euro]))
     ex_path = Some (ex_page (js ''52'' @ [euro])) \<and>
   length (split_nl (ex_page (js ''52'' @ [euro]))) = length (split_nl (ex_page (js ''49'' @ [euro]))) \<and>
   split_nl (ex_page (js ''52'' @ [euro])) ! 1 = js ''    price: \"52'' @ [euro] @ js ''\",''"
proof -
  have h: "contents (ex_disk (ex_page (js ''49'' @ [euro]))) ex_path = Some (ex_page (js ''49'' @ [euro]))"
    by (simp add: ex_disk_def)
  from rewrite_preserves_format [OF h, of ex_asin 52 "[euro]"]
  obtain content' where
    c: "contents (fst (updateFilePrice (ex_disk (ex_page (js ''49'' @ [euro]))) ex_path ex_asin 52 [euro]))
          ex_path = Some content'"
    and l: "length (split_nl content') = length (split_nl (ex_page (js ''49'' @ [euro])))"
    by blast
  from c have "content' = ex_page (js ''52'' @ [euro])"
    by (simp add: ex_format_49)
  with c l h show ?thesis
    by (simp add: ex_page_def eval_chars)
qed

text \<open>
  Claim C6. When, after the identifier line \<open>i\<close>, another \<open>asin:\<close> line \<open>j\<close> comes
  before any price line, the lookahead of that occurrence changes no line and does not set
  the flag. (By \<open>scan_all_interrupted\<close> a file all of whose occurrences are cut short
  this way is left as it is, so the price of the following product is not patched.)
\<close>

theorem interrupted_occurrence_abandoned:
  assumes "i < j" and "j < length X" and "asin_re (X ! j)"
    and "\<forall>k. i < k \<and> k \<le> j \<longrightarrow> price_re (X ! k) = None"
  shows "lookahead X i (i + 1) newPrice currency changed = (X, changed)"
  using assms by (intro lookahead_interrupted [of _ j]) auto

theorem interrupted_occurrence_abandoned_witness:
  "lookahead (split_nl ex_two_blocks) 0 (0 + 1) 200 [euro] False = (split_nl ex_two_blocks, False) \<and>
   updateFilePrice (ex_disk ex_two_blocks) ex_path ex_asin 200 [euro] = (ex_disk ex_two_blocks, False)"
proof -
  let ?X = "split_nl ex_two_blocks"
  have X: "?X = [js ''  { asin: \"B0TEST0001\",'', js ''    name: \"Desk\" },'',
      js ''  { asin: \"B0TEST0002\",'', js ''    price: \"100'' @ [euro] @ js ''\" },'']"
    by (simp add: ex_two_blocks_def eval_chars)
  have h1: "(0::nat) < 2" by simp
  have h2: "2 < length ?X" by (simp add: X)
  have h3: "asin_re (?X ! 2)" by (simp add: X eval_chars eval_patcher)
  have p1: "price_re (?X ! 1) = None" by (simp add: X eval_chars eval_patcher)
  have p2: "price_re (?X ! 2) = None" by (simp add: X eval_chars eval_patcher)
  have h4: "\<forall>k. 0 < k \<and> k \<le> 2 \<longrightarrow> price_re (?X ! k) = None"
  proof (intro allI impI)
    fix k :: nat assume "0 < k \<and> k \<le> 2"
    then have "k = 1 \<or> k = 2" by auto
    with p1 p2 show "price_re (?X ! k) = None" by auto
  qed
  note t = interrupted_occurrence_abandoned [OF h1 h2 h3 h4, of 200 "[euro]" False]
  have "updateFilePrice (ex_disk ex_two_blocks) ex_path ex_asin 200 [euro] = (ex_disk ex_two_blocks, False)"
    by (simp add: ex_two_blocks_def eval_examples eval_chars eval_patcher)
  with t show ?thesis by simp
qed

text \<open>
  Claim C7. In a run of \<open>main\<close>, \<open>fetchKeepaPrice\<close> is called exactly once for every
  pair of identifier and market that the registry names, however many entries name it, and
  for no other pair; the entry of the map for a pair holds the files of all registry entries
  with that pair, and the Patcher is called on them without repetition.
\<close>

theorem fetch_once_per_pair:
  "count_list (r_fetched (main net KEEPA_KEY PRODUCTS d)) (asin, domain) =
     (if \<exists>p \<in> set PRODUCTS. p_asin p = asin \<and> p_domain p = domain then 1 else 0) \<and>
   (\<forall>(k, e) \<in> set (byKey PRODUCTS).
      set (p_files e) =
        (\<Union>p \<in> {p \<in> set PRODUCTS. p_asin p = p_asin e \<and> p_domain p = p_domain e}. set (p_files p)) \<and>
      distinct (uniqueFiles (p_files e)) \<and> set (uniqueFiles (p_files e)) = set (p_files e))"
proof
  have "count_list (r_fetched (main net KEEPA_KEY PRODUCTS d)) (asin, domain) =
      (if (asin, domain) \<in> (\<lambda>p. (p_asin p, p_domain p)) ` set PRODUCTS then 1 else 0)"
    unfolding main_fetched
    using count_list_distinct [OF byKey_pairs_distinct, of PRODUCTS "(asin, domain)"]
    by (simp only: byKey_pairs_set)
  moreover have "(asin, domain) \<in> (\<lambda>p. (p_asin p, p_domain p)) ` set PRODUCTS \<longleftrightarrow>
      (\<exists>p \<in> set PRODUCTS. p_asin p = asin \<and> p_domain p = domain)"
    by auto
  ultimately show "count_list (r_fetched (main net KEEPA_KEY PRODUCTS d)) (asin, domain) =
     (if \<exists>p \<in> set PRODUCTS. p_asin p = asin \<and> p_domain p = domain then 1 else 0)"
    by simp
next
  show "\<forall>(k, e) \<in> set (byKey PRODUCTS).
      set (p_files e) =
        (\<Union>p \<in> {p \<in> set PRODUCTS. p_asin p = p_asin e \<and> p_domain p = p_domain e}. set (p_files p)) \<and>
      distinct (uniqueFiles (p_files e)) \<and> set (uniqueFiles (p_files e)) = set (p_files e)"
  proof (intro ballI, clarify, intro conjI)
    fix k e assume ke: "(k, e) \<in> set (byKey PRODUCTS)"
    have key: "product_key e = k" using byKey_inv ke by (rule byKey_inv_key)
    have "product_key p = k \<longleftrightarrow> p_asin p = p_asin e \<and> p_domain p = p_domain e" for p
      using product_key_inject [of p e] key by (auto simp: product_key_def)
    then have "{p \<in> set PRODUCTS. product_key p = k} =
        {p \<in> set PRODUCTS. p_asin p = p_asin e \<and> p_domain p = p_domain e}" by simp
    with byKey_inv_files [OF byKey_inv ke]
    show "set (p_files e) =
        (\<Union>p \<in> {p \<in> set PRODUCTS. p_asin p = p_asin e \<and> p_domain p = p_domain e}. set (p_files p))"
      by simp
    show "distinct (uniqueFiles (p_files e))" by (rule uniqueFiles_set)
    show "set (uniqueFiles (p_files e)) = set (p_files e)" by (rule uniqueFiles_set)
  qed
qed

theorem fetch_once_per_pair_witness:
  "count_list (r_fetched (main ex_net (js ''key'') ex_registry ex_disk2)) (ex_asin, 4) = 1 \<and>
   r_fetched (main ex_net (js ''key'') ex_registry ex_disk2) = [(ex_asin, 4)] \<and>
   map (\<lambda>(k, e). uniqueFiles (p_files e)) (byKey ex_registry) = [[ex_path, ex_path2]]"
proof -
  have "\<exists>p \<in> set ex_registry. p_asin p = ex_asin \<and> p_domain p = 4"
    by (simp add: ex_registry_def)
  with fetch_once_per_pair [of ex_net "js ''key''" ex_registry ex_disk2 ex_asin 4]
  have "count_list (r_fetched (main ex_net (js ''key'') ex_registry ex_disk2)) (ex_asin, 4) = 1"
    by simp
  moreover have "map (\<lambda>(k, e). uniqueFiles (p_files e)) (byKey ex_registry) = [[ex_path, ex_path2]]"
    by (simp add: ex_byKey uniqueFiles_def ex_path_def ex_path2_def js_def)
  ultimately show ?thesis by (simp add: ex_run)
qed

text \<open>
  Claim C8. On a successful response \<open>fetchKeepaPrice\<close> returns the buy-box slot
  \<open>current[10]\<close> when it is present and positive, otherwise the direct slot
  \<open>current[0]\<close>, otherwise the marketplace slot \<open>current[1]\<close>, each divided by 100;
  it returns \<open>null\<close> when none of the three is present and positive and when the response
  has no products or no statistics.
\<close>

theorem keepa_precedence:
  assumes "res_ok (net (keepa_url KEEPA_KEY asin domain))"
  shows "fetchKeepaPrice net KEEPA_KEY asin domain =
     Inr (case da_products (res_json (net (keepa_url KEEPA_KEY asin domain))) of
            None \<Rightarrow> None
          | Some [] \<Rightarrow> None
          | Some (product # _) \<Rightarrow>
              (case pr_stats product of
                 None \<Rightarrow> None
               | Some stats \<Rightarrow>
                   keepa_select (current_at stats 10) (current_at stats 0) (current_at stats 1)))"
  using assms
  by (auto simp: fetchKeepaPrice_def keepa_select_def present_positive_def Let_def
      split: option.splits list.splits)

theorem keepa_precedence_witness:
  "fetchKeepaPrice
     (\<lambda>_. ex_response [Some 4999, Some 4899, None, None, None, None, None, None, None, None, Some 4599])
     (js ''k'') ex_asin 4 = Inr (Some (4599 / 100)) \<and>
   fetchKeepaPrice
     (\<lambda>_. ex_response [Some 4999, Some 4899, None, None, None, None, None, None, None, None, Some (- 1)])
     (js ''k'') ex_asin 4 = Inr (Some (4999 / 100)) \<and>
   fetchKeepaPrice (\<lambda>_. ex_response [Some (- 1), Some 4899]) (js ''k'') ex_asin 4 =
     Inr (Some (4899 / 100)) \<and>
   fetchKeepaPrice (\<lambda>_. ex_response [Some (- 1), Some (- 1)]) (js ''k'') ex_asin 4 = Inr None"
proof -
  have ok: "res_ok ((\<lambda>_. ex_response slots) (keepa_url (js ''k'') ex_asin 4))" for slots
    by (simp add: ex_response_def)
  show ?thesis
    unfolding keepa_precedence [OF ok]
    by (simp add: ex_response_def current_at_def keepa_select_def present_positive_def)
qed


text \<open>
  Claim C10. A matched price line whose recorded price parses to \<open>NaN\<close> or to zero is
  given up before the percentage is computed: the decision is \<open>Abandon\<close>, the lookahead
  that reaches the line returns the lines and the flag as they were, and no run of the
  outer loop ever rewrites that line. Whenever the percentage is computed, the divisor is a
  positive number and the division is defined.
\<close>

theorem zero_price_abandoned:
  assumes "price_re (X ! j) = Some (m1, currentStr, m3)" and "j < length X"
    and "parseFloat (stripNonNumeric currentStr) = None \<or>
         parseFloat (stripNonNumeric currentStr) = Some 0"
  shows "decide currentStr newPrice currency = Abandon \<and>
     (j < min (i + 10) (length X) \<longrightarrow>
        lookahead X i j newPrice currency changed = (X, changed)) \<and>
     fst (scan X i0 asin newPrice currency changed) ! j = X ! j \<and>
     (\<forall>c. decide c newPrice currency \<noteq> Abandon \<longrightarrow>
        (\<exists>currentNum. parseFloat (stripNonNumeric c) = Some currentNum \<and> 0 < currentNum \<and>
           changePct newPrice currentNum = Some (\<bar>newPrice - currentNum\<bar> / currentNum * 100)))"
proof -
  have ab: "decide currentStr newPrice currency = Abandon"
    using assms(3) by (simp add: decide_Abandon_iff)
  have la: "j < min (i + 10) (length X) \<longrightarrow>
        lookahead X i j newPrice currency changed = (X, changed)"
    using ab by (simp add: lookahead_price [OF _ assms(1)])
  have sc: "fst (scan X i0 asin newPrice currency changed) ! j = X ! j"
    using assms(1,2) ab by (rule scan_keeps_abandoned)
  have dv: "\<exists>currentNum. parseFloat (stripNonNumeric c) = Some currentNum \<and> 0 < currentNum \<and>
           changePct newPrice currentNum = Some (\<bar>newPrice - currentNum\<bar> / currentNum * 100)"
    if "decide c newPrice currency \<noteq> Abandon" for c
  proof -
    from that obtain currentNum where p: "parseFloat (stripNonNumeric c) = Some currentNum"
      and nz: "currentNum \<noteq> 0"
      by (auto simp: decide_Abandon_iff)
    from parseFloat_nonneg [OF p] nz have "0 < currentNum" by simp
    with p show ?thesis by (auto simp: changePct_def js_div_def)
  qed
  from ab la sc dv show ?thesis by blast
qed

theorem zero_price_abandoned_witness:
  "decide (js ''0'' @ [euro]) 50 [euro] = Abandon \<and>
   lookahead (split_nl (ex_page (js ''0'' @ [euro]))) 0 1 50 [euro] False =
     (split_nl (ex_page (js ''0'' @ [euro])), False) \<and>
   fst (scan (split_nl (ex_page (js ''0'' @ [euro]))) 0 ex_asin 50 [euro] False) ! 1 =
     split_nl (ex_page (js ''0'' @ [euro])) ! 1 \<and>
   decide (js ''100'' @ [euro]) 50 [euro] \<noteq> Abandon \<and>
   changePct 50 100 = Some 50"
proof -
  let ?X = "split_nl (ex_page (js ''0'' @ [euro]))"
  have h1: "price_re (?X ! 1) = Some (js ''    price: \"'', js ''0'' @ [euro], js ''\",'')"
    by (simp add: eval_examples eval_chars eval_patcher)
  have h2: "1 < length ?X" by (simp add: eval_examples eval_chars)
  have h3: "parseFloat (stripNonNumeric (js ''0'' @ [euro])) = None \<or>
         parseFloat (stripNonNumeric (js ''0'' @ [euro])) = Some 0"
    by (simp add: eval_chars eval_patcher)
  note t = zero_price_abandoned [OF h1 h2 h3, of 50 "[euro]" 0 False 0 ex_asin]
  have w: "1 < min (0 + 10) (length ?X)" using h2 by simp
  have d: "decide (js ''100'' @ [euro]) 50 [euro] \<noteq> Abandon"
    by (simp add: eval_chars eval_patcher)
  from t d have "\<exists>currentNum. parseFloat (stripNonNumeric (js ''100'' @ [euro])) = Some currentNum \<and>
      0 < currentNum \<and> changePct 50 currentNum = Some (\<bar>50 - currentNum\<bar> / currentNum * 100)"
    by blast
  then have "changePct 50 100 = Some 50"
    by (simp add: ex_parse_100)
  with t w d show ?thesis by simp
qed

end
